theory Spec2Isabelle
  imports Main "HOL-Library.Word" "HOL-Library.Sublist"
begin

section \<open>JavaScript strings and numbers\<close>

text \<open>
  A JavaScript string is a sequence of UTF-16 code units. \<open>lit\<close> embeds an ASCII
  literal of the source. The counter \<open>nextId\<close> and \<open>todos.length\<close> are JavaScript
  numbers holding non-negative integers; they are modelled as \<open>nat\<close>, which is exact
  for every value below \<open>2^53\<close> (the collection, an array, cannot grow that far).
\<close>

type_synonym code_unit = "16 word"
type_synonym jsstring = "code_unit list"

definition lit :: "string \<Rightarrow> jsstring" where
  "lit s = map of_char s"

text \<open>\<open>Number::toString\<close> (radix 10) of a non-negative integer, as a template literal
  \<open>${n}\<close> renders it.\<close>

fun Number_toString :: "nat \<Rightarrow> jsstring" where
  "Number_toString n =
     (if n < 10 then [of_nat (48 + n)]
      else Number_toString (n div 10) @ [of_nat (48 + n mod 10)])"

declare Number_toString.simps [simp del]

text \<open>The number a string of decimal digits denotes (what \<open>Number(ds)\<close> reads back).\<close>

definition decimal_value :: "jsstring \<Rightarrow> nat" where
  "decimal_value ds = foldl (\<lambda>a d. 10 * a + (unat d - 48)) 0 ds"

subsection \<open>\<open>String.prototype.indexOf\<close>, \<open>includes_js\<close> and \<open>replace\<close>\<close>

text \<open>\<open>indexOf s p\<close> is the position of the first occurrence of \<open>p\<close> in \<open>s\<close>;
  \<open>None\<close> stands for the result \<open>-1\<close>.\<close>

fun indexOf :: "jsstring \<Rightarrow> jsstring \<Rightarrow> nat option" where
  "indexOf [] p = (if p = [] then Some 0 else None)"
| "indexOf (c # cs) p =
     (if prefix p (c # cs) then Some 0 else map_option Suc (indexOf cs p))"

definition includes_js :: "jsstring \<Rightarrow> jsstring \<Rightarrow> bool" where
  "includes_js s p = (indexOf s p \<noteq> None)"

text \<open>
  \<open>GetSubstitution\<close> of ECMAScript for a string pattern (no captures): in the replacement
  template \<open>$$\<close> is a dollar sign, \<open>$&\<close> the matched text, \<open>$`\<close> the text before
  the match and \<open>$'\<close> the text after it; any other \<open>$\<close> stands for itself.
\<close>

fun GetSubstitution :: "jsstring \<Rightarrow> jsstring \<Rightarrow> nat \<Rightarrow> jsstring \<Rightarrow> jsstring" where
  "GetSubstitution matched str position [] = []"
| "GetSubstitution matched str position [c] = [c]"
| "GetSubstitution matched str position (c # d # ds) =
     (if c = 0x24 then
        (if d = 0x24 then 0x24 # GetSubstitution matched str position ds
         else if d = 0x60 then take position str @ GetSubstitution matched str position ds
         else if d = 0x26 then matched @ GetSubstitution matched str position ds
         else if d = 0x27 then
           drop (position + length matched) str @ GetSubstitution matched str position ds
         else c # GetSubstitution matched str position (d # ds))
      else c # GetSubstitution matched str position (d # ds))"

text \<open>\<open>s.replace(p, template)\<close> with a string pattern replaces the first occurrence
  only and returns \<open>s\<close> itself when there is none.\<close>

definition replace :: "jsstring \<Rightarrow> jsstring \<Rightarrow> jsstring \<Rightarrow> jsstring" where
  "replace s p template =
     (case indexOf s p of
        None \<Rightarrow> s
      | Some position \<Rightarrow>
          take position s @ GetSubstitution p s position template
            @ drop (position + length p) s)"

subsection \<open>\<open>JSON.stringify\<close>\<close>

definition is_leading_surrogate :: "code_unit \<Rightarrow> bool" where
  "is_leading_surrogate c = (0xD800 \<le> c \<and> c \<le> 0xDBFF)"

definition is_trailing_surrogate :: "code_unit \<Rightarrow> bool" where
  "is_trailing_surrogate c = (0xDC00 \<le> c \<and> c \<le> 0xDFFF)"

definition hex_digit :: "nat \<Rightarrow> code_unit" where
  "hex_digit d = (if d < 10 then of_nat (48 + d) else of_nat (87 + d))"

text \<open>\<open>UnicodeEscape\<close>: backslash, \<open>u\<close> and four lowercase hexadecimal digits.\<close>

definition UnicodeEscape :: "code_unit \<Rightarrow> jsstring" where
  "UnicodeEscape c =
     [0x5C, 0x75, hex_digit (unat c div 4096 mod 16), hex_digit (unat c div 256 mod 16),
      hex_digit (unat c div 16 mod 16), hex_digit (unat c mod 16)]"

text \<open>One code unit that is not a surrogate: the two-character escapes of
  \<open>QuoteJSONString\<close>, a Unicode escape for the other control characters, else itself.\<close>

definition quote_unit :: "code_unit \<Rightarrow> jsstring" where
  "quote_unit c =
     (if c = 0x08 then [0x5C, 0x62]
      else if c = 0x09 then [0x5C, 0x74]
      else if c = 0x0A then [0x5C, 0x6E]
      else if c = 0x0C then [0x5C, 0x66]
      else if c = 0x0D then [0x5C, 0x72]
      else if c = 0x22 then [0x5C, 0x22]
      else if c = 0x5C then [0x5C, 0x5C]
      else if c < 0x20 then UnicodeEscape c
      else [c])"

text \<open>The loop of \<open>QuoteJSONString\<close> over the code points of the string: a surrogate
  pair is copied, a lone surrogate is escaped.\<close>

fun quote_units :: "jsstring \<Rightarrow> jsstring" where
  "quote_units [] = []"
| "quote_units [c] =
     (if is_leading_surrogate c \<or> is_trailing_surrogate c then UnicodeEscape c
      else quote_unit c)"
| "quote_units (c # d # ds) =
     (if is_leading_surrogate c then
        (if is_trailing_surrogate d then c # d # quote_units ds
         else UnicodeEscape c @ quote_units (d # ds))
      else if is_trailing_surrogate c then UnicodeEscape c @ quote_units (d # ds)
      else quote_unit c @ quote_units (d # ds))"

definition QuoteJSONString :: "jsstring \<Rightarrow> jsstring" where
  "QuoteJSONString s = 0x22 # quote_units s @ [0x22]"

text \<open>The strings that \<open>QuoteJSONString\<close> copies unchanged between the quotes: no
  control character, double quote or backslash, and every surrogate in a pair.\<close>

definition plain_unit :: "code_unit \<Rightarrow> bool" where
  "plain_unit c =
     (0x20 \<le> c \<and> c \<noteq> 0x22 \<and> c \<noteq> 0x5C
      \<and> \<not> is_leading_surrogate c \<and> \<not> is_trailing_surrogate c)"

fun verbatim_units :: "jsstring \<Rightarrow> bool" where
  "verbatim_units [] = True"
| "verbatim_units [c] = plain_unit c"
| "verbatim_units (c # d # ds) =
     (if is_leading_surrogate c then is_trailing_surrogate d \<and> verbatim_units ds
      else plain_unit c \<and> verbatim_units (d # ds))"

section \<open>The tool host (the MCP route of \<open>src/app/page.tsx\<close>)\<close>

record todo =
  id_t :: jsstring
  title :: jsstring
  completed :: bool

text \<open>The two module-level variables \<open>todos\<close> and \<open>nextId\<close>.\<close>

record state =
  todos :: "todo list"
  nextId :: nat

definition init_state :: state where
  "init_state = \<lparr>todos = [], nextId = 1\<rparr>"

text \<open>The object \<open>{ tasks: todos }\<close>, a content block \<open>{ type: "text", text }\<close> and the
  value a tool handler returns (\<open>meta\<close> is the source's \<open>_meta\<close>, a map from keys to
  values, here in the order written).\<close>

datatype tasks_obj = Tasks (tasks: "todo list")

datatype content_block = Text (text_b: jsstring)

record tool_result =
  content :: "content_block list"
  structuredContent :: tasks_obj
  meta :: "(jsstring \<times> tasks_obj) list"

text \<open>\<open>JSON.stringify\<close> on the values the handlers pass to it: an object is its
  properties in creation order, an array its elements, both without white space.\<close>

definition JSON_stringify_todo :: "todo \<Rightarrow> jsstring" where
  "JSON_stringify_todo t =
     lit ''{'' @ QuoteJSONString (lit ''id'') @ lit '':'' @ QuoteJSONString (id_t t)
     @ lit '','' @ QuoteJSONString (lit ''title'') @ lit '':'' @ QuoteJSONString (title t)
     @ lit '','' @ QuoteJSONString (lit ''completed'') @ lit '':''
     @ (if completed t then lit ''true'' else lit ''false'') @ lit ''}''"

fun join_comma :: "jsstring list \<Rightarrow> jsstring" where
  "join_comma [] = []"
| "join_comma [x] = x"
| "join_comma (x # y # ys) = x @ lit '','' @ join_comma (y # ys)"

definition JSON_stringify :: "tasks_obj \<Rightarrow> jsstring" where
  "JSON_stringify obj =
     lit ''{'' @ QuoteJSONString (lit ''tasks'') @ lit '':''
     @ lit ''['' @ join_comma (map JSON_stringify_todo (tasks obj)) @ lit '']'' @ lit ''}''"

subsection \<open>The three tool handlers\<close>

definition add_todo :: "jsstring \<Rightarrow> state \<Rightarrow> tool_result \<times> state" where
  "add_todo title' s =
     (let todo = \<lparr>id_t = lit ''todo-'' @ Number_toString (nextId s),
                  title = title', completed = False\<rparr>;
          s1 = s\<lparr>nextId := nextId s + 1\<rparr>;
          s2 = s1\<lparr>todos := todos s1 @ [todo]\<rparr>
      in (\<lparr>content =
             [Text (lit ''Added \"'' @ title todo @ lit ''\".''),
              Text (lit ''<widget-data>'' @ JSON_stringify (Tasks (todos s2))
                    @ lit ''</widget-data>'')],
           structuredContent = Tasks (todos s2),
           meta = [(lit ''openai/widgetData'', Tasks (todos s2))]\<rparr>, s2))"

definition complete_todo :: "jsstring \<Rightarrow> state \<Rightarrow> tool_result \<times> state" where
  "complete_todo id' s =
     (case find (\<lambda>task. id_t task = id') (todos s) of
        None \<Rightarrow>
          (\<lparr>content =
              [Text (lit ''Todo '' @ id' @ lit '' was not found.''),
               Text (lit ''<widget-data>'' @ JSON_stringify (Tasks (todos s))
                     @ lit ''</widget-data>'')],
            structuredContent = Tasks (todos s),
            meta = [(lit ''openai/widgetData'', Tasks (todos s))]\<rparr>, s)
      | Some todo \<Rightarrow>
          (let s1 = s\<lparr>todos :=
                  map (\<lambda>task. if id_t task = id' then task\<lparr>completed := True\<rparr> else task)
                    (todos s)\<rparr>
           in (\<lparr>content =
                  [Text (lit ''Completed \"'' @ title todo @ lit ''\".''),
                   Text (lit ''<widget-data>'' @ JSON_stringify (Tasks (todos s1))
                         @ lit ''</widget-data>'')],
                structuredContent = Tasks (todos s1),
                meta = [(lit ''openai/widgetData'', Tasks (todos s1))]\<rparr>, s1)))"

definition list_todos :: "state \<Rightarrow> tool_result \<times> state" where
  "list_todos s =
     (\<lparr>content =
         [Text (lit ''You have '' @ Number_toString (length (todos s)) @ lit '' todos.''),
          Text (lit ''<widget-data>'' @ JSON_stringify (Tasks (todos s))
                @ lit ''</widget-data>'')],
       structuredContent = Tasks (todos s),
       meta = [(lit ''openai/widgetData'', Tasks (todos s))]\<rparr>, s)"

subsection \<open>Tool calls\<close>

text \<open>The input schemas \<open>z.string().min(1)\<close> of \<open>add_todo\<close> and \<open>complete_todo\<close>; a call
  that fails its schema is rejected before the handler runs.\<close>

definition add_todo_inputSchema :: "jsstring \<Rightarrow> bool" where
  "add_todo_inputSchema title' = (1 \<le> length title')"

definition complete_todo_inputSchema :: "jsstring \<Rightarrow> bool" where
  "complete_todo_inputSchema id' = (1 \<le> length id')"

datatype tool_call = Add_todo jsstring | Complete_todo jsstring | List_todos

datatype error = InvalidInput

fun call_tool :: "tool_call \<Rightarrow> state \<Rightarrow> error + tool_result \<times> state" where
  "call_tool (Add_todo title') s =
     (if add_todo_inputSchema title' then Inr (add_todo title' s) else Inl InvalidInput)"
| "call_tool (Complete_todo id') s =
     (if complete_todo_inputSchema id' then Inr (complete_todo id' s) else Inl InvalidInput)"
| "call_tool List_todos s = Inr (list_todos s)"

text \<open>The states of one process lifetime: the initial one and every state an accepted
  tool call leaves behind.\<close>

inductive reachable :: "state \<Rightarrow> bool" where
  init: "reachable init_state"
| step: "reachable s \<Longrightarrow> call_tool c s = Inr (r, s') \<Longrightarrow> reachable s'"

section \<open>The build script (\<open>src/unnamed/part_000\<close>)\<close>

text \<open>The lines of the template literal \<open>dataInjectionScript\<close> between its first and
  its last line break.\<close>

definition script_lines :: "string list" where
  "script_lines =
     [''    <script>'',
      ''        // Multiple methods to receive data (OpenAI ChatGPT integration)'',
      ''        function checkAndRenderData() {'',
      ''            // Method 1: Check window.openai.toolOutput'',
      ''            if (typeof window !== 'undefined' && window.openai?.toolOutput?.tasks) {'',
      ''                if (window.renderTodos) window.renderTodos(window.openai.toolOutput.tasks);'',
      ''                return true;'',
      ''            }'',
      ''            // Method 2: Check window.openai.toolResponseMetadata'',
      ''            if (typeof window !== 'undefined' && window.openai?.toolResponseMetadata?.['openai/widgetData']?.tasks) {'',
      ''                if (window.renderTodos) window.renderTodos(window.openai.toolResponseMetadata['openai/widgetData'].tasks);'',
      ''                return true;'',
      ''            }'',
      ''            return false;'',
      ''        }'',
      '''',
      ''        // Method 3: Listen for postMessage events'',
      ''        window.addEventListener('message', (event) => {'',
      ''            if (event.data.type === 'structuredContent' && event.data.content?.tasks) {'',
      ''                if (window.renderTodos) window.renderTodos(event.data.content.tasks);'',
      ''            }'',
      ''            if (event.data.type === 'widgetData' && event.data.tasks) {'',
      ''                if (window.renderTodos) window.renderTodos(event.data.tasks);'',
      ''            }'',
      ''        });'',
      '''',
      ''        // Initial check on load'',
      ''        if (document.readyState === 'loading') {'',
      ''            document.addEventListener('DOMContentLoaded', checkAndRenderData);'',
      ''        } else {'',
      ''            checkAndRenderData();'',
      ''        }'',
      '''',
      ''        // Poll for data (OpenAI may inject data after mount)'',
      ''        const interval = setInterval(() => {'',
      ''            if (checkAndRenderData()) {'',
      ''                clearInterval(interval);'',
      ''            }'',
      ''        }, 100);'',
      '''',
      ''        // Stop polling after 5 seconds'',
      ''        setTimeout(() => clearInterval(interval), 5000);'',
      ''    </script>'']"

text \<open>The template literal itself: a line break, the lines above, each ended by a line
  break, and the two spaces before the closing backquote.\<close>

definition dataInjectionScript :: jsstring where
  "dataInjectionScript =
     lit (CHR 0x0A # concat (map (\<lambda>l. l @ [CHR 0x0A]) script_lines) @ ''  '')"

definition processWidgetHtml :: "jsstring \<Rightarrow> jsstring" where
  "processWidgetHtml html =
     (if includes_js html (lit ''</body>'')
      then replace html (lit ''</body>'') (dataInjectionScript @ lit ''</body>'')
      else html @ dataInjectionScript)"

section \<open>Substring search and replacement\<close>

lemma indexOf_None_iff: "indexOf s p = None \<longleftrightarrow> \<not> sublist p s"
  by (induction s) (auto simp: sublist_Cons_right)

lemma includes_js_iff: "includes_js s p \<longleftrightarrow> sublist p s"
  by (simp add: includes_js_def indexOf_None_iff)

lemma prefix_take_longer:
  assumes "prefix p (u @ p @ v)" "u \<noteq> []"
  shows "prefix p (u @ butlast p)"
proof -
  have "length p \<le> length (u @ butlast p)" using assms(2) by (cases u) auto
  moreover have "prefix (u @ butlast p) (u @ p @ v)"
    by (simp add: prefixeq_butlast prefix_prefix)
  ultimately show ?thesis using assms(1)
    by (metis prefix_length_prefix)
qed

lemma indexOf_first:
  "p \<noteq> [] \<Longrightarrow> \<not> sublist p (u @ butlast p) \<Longrightarrow> indexOf (u @ p @ v) p = Some (length u)"
proof (induction u)
  case Nil
  then show ?case by (cases p) auto
next
  case (Cons a u)
  from Cons.prems(2) have np: "\<not> prefix p ((a # u) @ butlast p)" and ns: "\<not> sublist p (u @ butlast p)"
    by (auto simp: sublist_Cons_right)
  have "\<not> prefix p ((a # u) @ p @ v)"
    using np prefix_take_longer[of p "a # u" v] by blast
  then show ?case using Cons.IH[OF Cons.prems(1) ns] by simp
qed

lemma indexOf_Some:
  "indexOf s p = Some i \<Longrightarrow> p \<noteq> [] \<Longrightarrow>
     s = take i s @ p @ drop (i + length p) s \<and> \<not> sublist p (take i s @ butlast p)"
proof (induction s arbitrary: i)
  case Nil
  then show ?case by (auto split: if_splits)
next
  case (Cons c cs)
  show ?case
  proof (cases "prefix p (c # cs)")
    case True
    then have i: "i = 0" using Cons.prems by simp
    from True obtain zs where "c # cs = p @ zs" by (auto simp: prefix_def)
    moreover have "\<not> sublist p (butlast p)"
      using Cons.prems(2) by (cases p) (auto dest!: sublist_length_le)
    ultimately show ?thesis using i by simp
  next
    case False
    then obtain j where j: "indexOf cs p = Some j" "i = Suc j"
      using Cons.prems by auto
    from Cons.IH[OF j(1) Cons.prems(2)]
    have eq: "cs = take j cs @ p @ drop (j + length p) cs"
      and ns: "\<not> sublist p (take j cs @ butlast p)" by auto
    have "prefix (c # take j cs @ butlast p) (c # cs)"
      by (subst (2) eq) (simp add: prefixeq_butlast prefix_prefix)
    with False have "\<not> prefix p (c # take j cs @ butlast p)"
      using prefix_order.trans by blast
    with ns have "\<not> sublist p (c # take j cs @ butlast p)"
      by (simp add: sublist_Cons_right)
    with eq j(2) show ?thesis by simp
  qed
qed

lemma GetSubstitution_no_dollar:
  "0x24 \<notin> set template \<Longrightarrow> GetSubstitution matched str position template = template"
  by (induction matched str position template rule: GetSubstitution.induct) auto

lemma lit_append: "lit (a @ b) = lit a @ lit b"
  by (simp add: lit_def)

lemma of_char_eq_iff_16: "(of_char c :: 16 word) = of_char d \<longleftrightarrow> c = d"
proof -
  have lt: "(of_char x :: nat) < 2 ^ 16" for x
    by (rule less_trans [OF nat_of_char_less_256]) simp
  have "(of_char c :: 16 word) = of_char d \<longleftrightarrow>
        (of_nat (of_char c) :: 16 word) = of_nat (of_char d)"
    by (simp only: of_nat_of_char)
  also have "\<dots> \<longleftrightarrow> (of_char c :: nat) = of_char d"
    using lt [of c] lt [of d] by (simp add: word_of_nat_eq_iff take_bit_nat_eq_self)
  finally show ?thesis by simp
qed

lemma inj_lit: "lit a = lit b \<longleftrightarrow> a = b"
  by (simp add: lit_def inj_map_eq_map inj_on_def of_char_eq_iff_16)

lemma set_lit: "x \<in> set (lit s) \<longleftrightarrow> (\<exists>c \<in> set s. x = of_char c)"
  by (auto simp: lit_def)

lemma sublist_lit: "sublist (lit p) (lit s) \<longleftrightarrow> sublist p s"
proof
  assume "sublist (lit p) (lit s)"
  then obtain q where "sublist q s" "lit p = map of_char q"
    unfolding lit_def using sublist_map_rightE by metis
  then show "sublist p s" using inj_lit [of p q] by (simp add: lit_def)
next
  assume "sublist p s"
  then show "sublist (lit p) (lit s)" unfolding lit_def by (rule map_mono_sublist)
qed

lemma script_chars_no_dollar:
  "CHR ''$'' \<notin> set (CHR 0x0A # concat (map (\<lambda>l. l @ [CHR 0x0A]) script_lines) @ ''  '')"
  unfolding script_lines_def by simp

lemma script_no_dollar: "0x24 \<notin> set dataInjectionScript"
proof
  assume "0x24 \<in> set dataInjectionScript"
  then obtain c where c: "c \<in> set (CHR 0x0A # concat (map (\<lambda>l. l @ [CHR 0x0A]) script_lines) @ ''  '')"
    and "(0x24 :: 16 word) = of_char c"
    unfolding dataInjectionScript_def set_lit by blast
  then have "(of_char (CHR ''$'') :: 16 word) = of_char c" by simp
  then have "c = CHR ''$''" by (simp only: of_char_eq_iff_16)
  with c script_chars_no_dollar show False by simp
qed

lemma script_chars_no_tag:
  "\<not> sublist ''</b'' (CHR 0x0A # concat (map (\<lambda>l. l @ [CHR 0x0A]) script_lines) @ ''  '')"
  unfolding script_lines_def by (simp add: sublist_Cons_right)


lemma first_occurrence_exists:
  assumes "sublist p (s :: jsstring)" "p \<noteq> []"
  shows "\<exists>u v. s = u @ p @ v \<and> \<not> sublist p (u @ butlast p)"
proof -
  from assms(1) obtain i where "indexOf s p = Some i"
    using indexOf_None_iff [of s p] by auto
  from indexOf_Some [OF this assms(2)] show ?thesis by blast
qed

lemma sublist_sep:
  assumes "x \<notin> set p"
  shows "sublist p (a @ x # b) \<longleftrightarrow> sublist p a \<or> sublist p b"
proof
  assume "sublist p (a @ x # b)"
  then consider "sublist p a" | "sublist p (x # b)"
    | p1 p2 where "p = p1 @ p2" "suffix p1 a" "prefix p2 (x # b)" "p2 \<noteq> []"
    unfolding sublist_append [of p a "x # b"] by (metis append_Nil2 suffix_imp_sublist)
  then show "sublist p a \<or> sublist p b"
  proof cases
    case 1 then show ?thesis by simp
  next
    case 2 then show ?thesis using assms
      by (cases p) (auto simp: sublist_Cons_right)
  next
    case 3 then show ?thesis using assms by (cases p2) auto
  qed
next
  assume "sublist p a \<or> sublist p b"
  then show "sublist p (a @ x # b)"
    by (metis sublist_append sublist_Cons_right)
qed

lemma butlast_tag: "butlast (lit ''</body>'') = lit ''</body''"
  by (simp add: lit_def)

lemma tag_not_Nil: "lit ''</body>'' \<noteq> []"
  by (simp add: lit_def)

lemma replace_first:
  assumes "p \<noteq> []" "\<not> sublist p (u @ butlast p)" "0x24 \<notin> set template"
  shows "replace (u @ p @ v) p template = u @ template @ v"
  using indexOf_first [OF assms(1,2), of v] GetSubstitution_no_dollar [OF assms(3)]
  by (simp add: replace_def)

lemma template_no_dollar: "0x24 \<notin> set (dataInjectionScript @ lit ''</body>'')"
  using script_no_dollar by (simp add: lit_def)

lemma process_found:
  assumes "html = pre @ lit ''</body>'' @ post"
    and "\<not> sublist (lit ''</body>'') (pre @ lit ''</body'')"
  shows "processWidgetHtml html = pre @ dataInjectionScript @ lit ''</body>'' @ post"
proof -
  have "includes_js html (lit ''</body>'')"
    by (simp add: includes_js_iff assms(1))
  moreover have "replace (pre @ lit ''</body>'' @ post) (lit ''</body>'')
      (dataInjectionScript @ lit ''</body>'')
      = pre @ (dataInjectionScript @ lit ''</body>'') @ post"
    using assms(2) by (intro replace_first tag_not_Nil template_no_dollar) (simp add: butlast_tag)
  ultimately show ?thesis by (simp add: processWidgetHtml_def assms(1))
qed

lemma process_absent:
  "\<not> sublist (lit ''</body>'') html \<Longrightarrow> processWidgetHtml html = html @ dataInjectionScript"
  by (simp add: processWidgetHtml_def includes_js_iff)

lemma length_process:
  "length (processWidgetHtml html) = length html + length dataInjectionScript"
proof (cases "sublist (lit ''</body>'') html")
  case True
  from first_occurrence_exists [OF True tag_not_Nil] obtain u v
    where "html = u @ lit ''</body>'' @ v" "\<not> sublist (lit ''</body>'') (u @ lit ''</body'')"
    by (auto simp: butlast_tag)
  from process_found [OF this] this(1) show ?thesis by simp
next
  case False
  then show ?thesis by (simp add: process_absent)
qed

lemma script_not_Nil: "dataInjectionScript \<noteq> []"
  by (simp add: dataInjectionScript_def lit_def)

lemma script_shape: "\<exists>m. dataInjectionScript = 0x0A # m @ [0x20]"
  by (simp add: dataInjectionScript_def lit_def)

lemma script_no_tag: "\<not> sublist (lit ''</body>'') dataInjectionScript"
proof
  assume "sublist (lit ''</body>'') dataInjectionScript"
  moreover have "sublist (lit ''</b'') (lit ''</body>'')"
    by (simp add: sublist_lit sublist_Cons_right)
  ultimately have "sublist (lit ''</b'') dataInjectionScript"
    using sublist_order.order.trans by blast
  then show False
    using script_chars_no_tag by (simp add: dataInjectionScript_def sublist_lit)
qed

lemma nl_not_in_tag: "0x0A \<notin> set (lit ''</body>'')"
  by (simp add: lit_def)

lemma sp_not_in_tag: "0x20 \<notin> set (lit ''</body>'')"
  by (simp add: lit_def)

lemma no_tag_before_script:
  assumes "\<not> sublist (lit ''</body>'') u"
  shows "\<not> sublist (lit ''</body>'') (u @ dataInjectionScript @ lit ''</body'')"
proof -
  from script_shape obtain m where m: "dataInjectionScript = 0x0A # m @ [0x20]" by blast
  have a: "\<not> sublist (lit ''</body>'') (m @ [0x20])"
    using script_no_tag unfolding m by (simp add: sublist_Cons_right)
  have b: "\<not> sublist (lit ''</body>'') (lit ''</body'')"
    by (simp add: sublist_lit sublist_Cons_right)
  have "\<not> sublist (lit ''</body>'') (m @ 0x20 # lit ''</body'')"
    using a b by (simp add: sublist_sep [OF sp_not_in_tag] sublist_snoc)
  with assms show ?thesis
    unfolding m by (simp add: sublist_sep [OF nl_not_in_tag])
qed

lemma no_tag_after_script:
  assumes "\<not> sublist (lit ''</body>'') html"
  shows "\<not> sublist (lit ''</body>'') (html @ dataInjectionScript)"
proof -
  from script_shape obtain m where m: "dataInjectionScript = 0x0A # m @ [0x20]" by blast
  have "\<not> sublist (lit ''</body>'') (m @ [0x20])"
    using script_no_tag unfolding m by (simp add: sublist_Cons_right)
  with assms show ?thesis
    unfolding m by (simp add: sublist_sep [OF nl_not_in_tag])
qed

lemma process_twice_found:
  assumes "html = pre @ lit ''</body>'' @ post"
    and "\<not> sublist (lit ''</body>'') (pre @ lit ''</body'')"
  shows "processWidgetHtml (processWidgetHtml html)
         = pre @ dataInjectionScript @ dataInjectionScript @ lit ''</body>'' @ post"
proof -
  have "\<not> sublist (lit ''</body>'') pre"
    using assms(2) by (metis sublist_append)
  then have ns: "\<not> sublist (lit ''</body>'') ((pre @ dataInjectionScript) @ lit ''</body'')"
    by (simp add: no_tag_before_script)
  have eq: "processWidgetHtml html = (pre @ dataInjectionScript) @ lit ''</body>'' @ post"
    using process_found [OF assms] by simp
  show ?thesis
    unfolding eq using process_found [OF refl ns, of post] by simp
qed

lemma process_twice_absent:
  assumes "\<not> sublist (lit ''</body>'') html"
  shows "processWidgetHtml (processWidgetHtml html)
         = html @ dataInjectionScript @ dataInjectionScript"
  using process_absent [OF no_tag_after_script [OF assms]] process_absent [OF assms] by simp

section \<open>Identifiers and reachable states\<close>

lemma Number_toString_not_Nil: "Number_toString n \<noteq> []"
  by (subst Number_toString.simps) simp

lemma digit_unit_eq_iff:
  "a < 10 \<Longrightarrow> b < 10 \<Longrightarrow> (of_nat a :: 16 word) = of_nat b \<longleftrightarrow> a = b"
  unfolding word_of_nat_eq_iff by (simp add: take_bit_nat_eq_self)

lemma Number_toString_inj: "Number_toString m = Number_toString n \<Longrightarrow> m = n"
proof (induction m arbitrary: n rule: Number_toString.induct)
  case (1 m)
  show ?case
  proof (cases "m < 10")
    case True
    show ?thesis
    proof (cases "n < 10")
      case n: True
      with True "1.prems" show ?thesis
        by (simp add: Number_toString.simps [of m] Number_toString.simps [of n] digit_unit_eq_iff)
    next
      case n: False
      with True "1.prems" show ?thesis
        by (simp add: Number_toString.simps [of m] Number_toString.simps [of n]
              Number_toString_not_Nil Number_toString_not_Nil [symmetric])
    qed
  next
    case False
    show ?thesis
    proof (cases "n < 10")
      case n: True
      with False "1.prems" show ?thesis
        by (simp add: Number_toString.simps [of m] Number_toString.simps [of n]
              Number_toString_not_Nil Number_toString_not_Nil [symmetric])
    next
      case n: False
      with False "1.prems" have
        "Number_toString (m div 10) = Number_toString (n div 10)"
        "(of_nat (48 + m mod 10) :: 16 word) = of_nat (48 + n mod 10)"
        by (simp_all add: Number_toString.simps [of m] Number_toString.simps [of n])
      then have "m div 10 = n div 10" "m mod 10 = n mod 10"
        using "1.IH" [OF False] by (simp_all add: digit_unit_eq_iff)
      then show ?thesis by (metis div_mult_mod_eq)
    qed
  qed
qed

lemma todo_id_eq_iff:
  "lit ''todo-'' @ Number_toString m = lit ''todo-'' @ Number_toString n \<longleftrightarrow> m = n"
  using Number_toString_inj by auto

lemma map_id_complete:
  "map id_t (map (\<lambda>task. if id_t task = i then task\<lparr>completed := True\<rparr> else task) xs) = map id_t xs"
  by (induction xs) auto

lemma todos_complete_todo:
  "todos (snd (complete_todo i s)) =
     (if i \<in> id_t ` set (todos s)
      then map (\<lambda>task. if id_t task = i then task\<lparr>completed := True\<rparr> else task) (todos s)
      else todos s)"
proof (cases "find (\<lambda>task. id_t task = i) (todos s)")
  case None
  then have "i \<notin> id_t ` set (todos s)" by (auto simp: find_None_iff)
  with None show ?thesis by (simp add: complete_todo_def)
next
  case (Some x)
  then have "i \<in> id_t ` set (todos s)"
    using find_None_iff [of "\<lambda>task. id_t task = i" "todos s"] by auto
  with Some show ?thesis by (simp add: complete_todo_def Let_def)
qed

lemma nextId_complete_todo: "nextId (snd (complete_todo i s)) = nextId s"
  by (simp add: complete_todo_def Let_def split: option.splits)

lemma reachable_ids:
  "reachable s \<Longrightarrow>
     1 \<le> nextId s \<and>
     map id_t (todos s) = map (\<lambda>k. lit ''todo-'' @ Number_toString k) [1..<nextId s]"
proof (induction rule: reachable.induct)
  case init
  show ?case by (simp add: init_state_def)
next
  case (step s c r s')
  show ?case
  proof (cases c)
    case (Add_todo t)
    with step.hyps(2) have "s' = snd (add_todo t s)" by (auto split: if_splits)
    with step.IH show ?thesis by (simp add: add_todo_def Let_def)
  next
    case (Complete_todo i)
    with step.hyps(2) have "s' = snd (complete_todo i s)" by (auto split: if_splits)
    with step.IH show ?thesis
      by (simp add: todos_complete_todo nextId_complete_todo map_id_complete del: map_map)
  next
    case List_todos
    with step.hyps(2) have "s' = s" by (auto simp: list_todos_def)
    with step.IH show ?thesis by simp
  qed
qed

lemma reachable_distinct: "reachable s \<Longrightarrow> distinct (map id_t (todos s))"
  by (auto simp: reachable_ids distinct_map inj_on_def dest: Number_toString_inj)

lemma reachable_nextId: "reachable s \<Longrightarrow> nextId s = Suc (length (todos s))"
proof -
  assume r: "reachable s"
  from reachable_ids [OF r] have
    "length (map id_t (todos s))
       = length (map (\<lambda>k. lit ''todo-'' @ Number_toString k) [1..<nextId s])"
    by simp
  then have "length (todos s) = nextId s - 1" by simp
  with reachable_ids [OF r] show ?thesis by simp
qed

lemma reachable_fresh:
  "reachable s \<Longrightarrow> lit ''todo-'' @ Number_toString (nextId s) \<notin> id_t ` set (todos s)"
proof
  assume r: "reachable s" and "lit ''todo-'' @ Number_toString (nextId s) \<in> id_t ` set (todos s)"
  then have "lit ''todo-'' @ Number_toString (nextId s) \<in> set (map id_t (todos s))" by simp
  then show False
    unfolding conjunct2 [OF reachable_ids [OF r]] by (auto dest: Number_toString_inj)
qed

lemma unat_digit: "d < 10 \<Longrightarrow> unat (of_nat (48 + d) :: 16 word) = 48 + d"
  by (simp add: unat_of_nat take_bit_nat_eq_self del: of_nat_add)

lemma decimal_value_Number_toString: "decimal_value (Number_toString n) = n"
proof (induction n rule: Number_toString.induct)
  case (1 n)
  show ?case
  proof (cases "n < 10")
    case True
    then show ?thesis
      by (simp add: Number_toString.simps [of n] decimal_value_def unat_digit del: of_nat_add)
  next
    case False
    then have "decimal_value (Number_toString n)
        = 10 * decimal_value (Number_toString (n div 10)) + n mod 10"
      by (simp add: Number_toString.simps [of n] decimal_value_def unat_digit del: of_nat_add)
    with "1.IH" [OF False] show ?thesis by simp
  qed
qed

lemma find_map_complete:
  "find (\<lambda>task. id_t task = i)
     (map (\<lambda>task. if id_t task = i then task\<lparr>completed := True\<rparr> else task) xs)
   = map_option (\<lambda>task. task\<lparr>completed := True\<rparr>) (find (\<lambda>task. id_t task = i) xs)"
  by (induction xs) auto

lemma map_complete_twice:
  "map (\<lambda>task. if id_t task = i then task\<lparr>completed := True\<rparr> else task)
     (map (\<lambda>task. if id_t task = i then task\<lparr>completed := True\<rparr> else task) xs)
   = map (\<lambda>task. if id_t task = i then task\<lparr>completed := True\<rparr> else task) xs"
  by (induction xs) auto

lemma funpow_list_todos: "((\<lambda>s. snd (list_todos s)) ^^ n) s = s"
  by (induction n) (simp_all add: list_todos_def)

lemma distinct_id_nth:
  assumes "distinct (map id_t xs)" "j < length xs" "k < length xs"
  shows "id_t (xs ! j) = id_t (xs ! k) \<longleftrightarrow> j = k"
  using nth_eq_iff_index_eq [OF assms(1), of j k] assms(2,3) by simp

lemma map_complete_distinct:
  assumes "distinct (map id_t xs)" "k < length xs"
  shows "map (\<lambda>task. if id_t task = id_t (xs ! k) then task\<lparr>completed := True\<rparr> else task) xs
         = xs[k := (xs ! k)\<lparr>completed := True\<rparr>]"
  using assms by (intro nth_equalityI) (auto simp: nth_list_update distinct_id_nth)

lemma find_distinct:
  assumes "distinct (map id_t xs)" "k < length xs"
  shows "find (\<lambda>task. id_t task = id_t (xs ! k)) xs = Some (xs ! k)"
proof -
  have "\<forall>j<k. id_t (xs ! j) \<noteq> id_t (xs ! k)"
    using assms by (simp add: distinct_id_nth)
  with assms(2) show ?thesis unfolding find_Some_iff by blast
qed

lemma reachable_add: "reachable s \<Longrightarrow> t \<noteq> [] \<Longrightarrow> reachable (snd (add_todo t s))"
  by (rule reachable.step [where c = "Add_todo t" and r = "fst (add_todo t s)"])
     (simp_all add: add_todo_inputSchema_def Suc_le_eq)


section \<open>JSON string literals\<close>

lemma length_UnicodeEscape: "length (UnicodeEscape c) = 6"
  by (simp add: UnicodeEscape_def)

lemma hd_UnicodeEscape: "UnicodeEscape c = 0x5C # tl (UnicodeEscape c)"
  by (simp add: UnicodeEscape_def)

lemma quote_unit_plain: "plain_unit c \<Longrightarrow> quote_unit c = [c]"
  by (auto simp: plain_unit_def quote_unit_def)

lemma quote_units_verbatim: "verbatim_units s \<Longrightarrow> quote_units s = s"
  by (induction s rule: verbatim_units.induct)
     (auto simp: quote_unit_plain plain_unit_def split: if_splits)

lemma quote_unit_not_Nil: "quote_unit c \<noteq> []"
  by (simp add: quote_unit_def UnicodeEscape_def)

lemma length_quote_unit: "1 \<le> length (quote_unit c)"
  using quote_unit_not_Nil [of c] by (cases "quote_unit c") simp_all

lemma length_quote_units: "length s \<le> length (quote_units s)"
proof (induction s rule: quote_units.induct)
  case 1
  show ?case by simp
next
  case (2 c)
  show ?case using length_quote_unit [of c] by (simp add: length_UnicodeEscape)
next
  case (3 c d ds)
  then show ?case using length_quote_unit [of c]
    by (cases "is_leading_surrogate c") (auto simp: length_UnicodeEscape)
qed

lemma quote_unit_self: "quote_unit c = c # r \<Longrightarrow> (r = [] \<and> 0x20 \<le> c \<and> c \<noteq> 0x22 \<and> c \<noteq> 0x5C) \<or> (c = 0x5C \<and> r = [0x5C])"
  by (auto simp: quote_unit_def UnicodeEscape_def split: if_splits)


lemma verbatim_quote_units: "quote_units s = s \<Longrightarrow> verbatim_units s"
proof (induction s rule: quote_units.induct)
  case 1
  show ?case by simp
next
  case (2 c)
  show ?case
  proof (cases "is_leading_surrogate c \<or> is_trailing_surrogate c")
    case True
    with "2.prems" have "length (UnicodeEscape c) = length [c]" by simp
    then show ?thesis by (simp add: length_UnicodeEscape)
  next
    case False
    with "2.prems" have "quote_unit c = c # []" by simp
    from quote_unit_self [OF this] False show ?thesis by (simp add: plain_unit_def)
  qed
next
  case (3 c d ds)
  show ?case
  proof (cases "is_leading_surrogate c")
    case lead: True
    show ?thesis
    proof (cases "is_trailing_surrogate d")
      case True
      with lead "3.prems" "3.IH"(1) show ?thesis by simp
    next
      case False
      with lead "3.prems" have "UnicodeEscape c @ quote_units (d # ds) = c # d # ds" by simp
      then have "c = 0x5C" by (subst (asm) hd_UnicodeEscape) simp
      with lead show ?thesis by (simp add: is_leading_surrogate_def)
    qed
  next
    case nolead: False
    show ?thesis
    proof (cases "is_trailing_surrogate c")
      case True
      with nolead "3.prems" have "UnicodeEscape c @ quote_units (d # ds) = c # d # ds" by simp
      then have "c = 0x5C" by (subst (asm) hd_UnicodeEscape) simp
      with True show ?thesis by (simp add: is_trailing_surrogate_def)
    next
      case False
      with nolead "3.prems" have e: "quote_unit c @ quote_units (d # ds) = c # d # ds" by simp
      then obtain r where r: "quote_unit c = c # r"
        using quote_unit_not_Nil [of c] by (cases "quote_unit c") auto
      from quote_unit_self [OF r] show ?thesis
      proof
        assume a: "r = [] \<and> 0x20 \<le> c \<and> c \<noteq> 0x22 \<and> c \<noteq> 0x5C"
        with e r have "quote_units (d # ds) = d # ds" by simp
        with "3.IH"(4) nolead False have "verbatim_units (d # ds)" by simp
        with a nolead False show ?thesis by (simp add: plain_unit_def)
      next
        assume a: "c = 0x5C \<and> r = [0x5C]"
        from e have "length (quote_unit c) + length (quote_units (d # ds)) = length (c # d # ds)"
          by (metis length_append)
        with r a have "length (quote_units (d # ds)) = length ds" by simp
        with length_quote_units [of "d # ds"] show ?thesis by simp
      qed
    qed
  qed
qed

lemma QuoteJSONString_verbatim_iff:
  "QuoteJSONString s = 0x22 # s @ [0x22] \<longleftrightarrow> verbatim_units s"
  using quote_units_verbatim verbatim_quote_units by (auto simp: QuoteJSONString_def)

lemma join_comma_snoc:
  "\<exists>p. join_comma (xs @ [x]) = p @ x"
proof (induction xs rule: join_comma.induct)
  case 1
  show ?case by simp
next
  case (2 y)
  show ?case by simp
next
  case (3 y z zs)
  then obtain p where "join_comma ((z # zs) @ [x]) = p @ x" by blast
  then have "join_comma ((y # z # zs) @ [x]) = (y @ lit '','' @ p) @ x" by simp
  then show ?case by blast
qed

lemma sublist_title_JSON_stringify:
  "sublist (QuoteJSONString (title t)) (JSON_stringify (Tasks (xs @ [t])))"
proof -
  obtain p where p: "join_comma (map JSON_stringify_todo xs @ [JSON_stringify_todo t])
      = p @ JSON_stringify_todo t"
    using join_comma_snoc by blast
  have "JSON_stringify (Tasks (xs @ [t])) =
      lit ''{'' @ QuoteJSONString (lit ''tasks'') @ lit '':'' @ lit ''[''
        @ (p @ JSON_stringify_todo t) @ lit '']'' @ lit ''}''"
    by (simp add: JSON_stringify_def p)
  also have "\<dots> =
      (lit ''{'' @ QuoteJSONString (lit ''tasks'') @ lit '':'' @ lit ''['' @ p
        @ lit ''{'' @ QuoteJSONString (lit ''id'') @ lit '':'' @ QuoteJSONString (id_t t)
        @ lit '','' @ QuoteJSONString (lit ''title'') @ lit '':'')
      @ QuoteJSONString (title t)
      @ (lit '','' @ QuoteJSONString (lit ''completed'') @ lit '':''
        @ (if completed t then lit ''true'' else lit ''false'') @ lit ''}''
        @ lit '']'' @ lit ''}'')"
    by (simp add: JSON_stringify_todo_def)
  finally have "JSON_stringify (Tasks (xs @ [t])) =
      (lit ''{'' @ QuoteJSONString (lit ''tasks'') @ lit '':'' @ lit ''['' @ p
        @ lit ''{'' @ QuoteJSONString (lit ''id'') @ lit '':'' @ QuoteJSONString (id_t t)
        @ lit '','' @ QuoteJSONString (lit ''title'') @ lit '':'')
      @ QuoteJSONString (title t)
      @ (lit '','' @ QuoteJSONString (lit ''completed'') @ lit '':''
        @ (if completed t then lit ''true'' else lit ''false'') @ lit ''}''
        @ lit '']'' @ lit ''}'')" .
  then show ?thesis by (simp only: sublist_appendI)
qed

subsection \<open>The serialization determines the collection\<close>















lemma reachable_complete: "reachable s \<Longrightarrow> i \<noteq> [] \<Longrightarrow> reachable (snd (complete_todo i s))"
  by (rule reachable.step [where c = "Complete_todo i" and r = "fst (complete_todo i s)"])
     (simp_all add: complete_todo_inputSchema_def Suc_le_eq)

text \<open>A state of a process lifetime with three items, the first one completed: three
  calls of \<open>add_todo\<close>, then \<open>complete_todo\<close> on \<open>todo-1\<close>.\<close>

lemma three_items_state:
  "snd (complete_todo (lit ''todo-1'')
     (snd (add_todo (lit ''Call mum'')
       (snd (add_todo (lit ''Walk dog'')
         (snd (add_todo (lit ''Buy milk'') init_state)))))))
   = \<lparr>todos = [\<lparr>id_t = lit ''todo-1'', title = lit ''Buy milk'', completed = True\<rparr>,
               \<lparr>id_t = lit ''todo-2'', title = lit ''Walk dog'', completed = False\<rparr>,
               \<lparr>id_t = lit ''todo-3'', title = lit ''Call mum'', completed = False\<rparr>],
      nextId = 4\<rparr>"
  by (simp add: add_todo_def complete_todo_def init_state_def Let_def lit_def
        Number_toString.simps)

lemma three_items_reachable:
  "reachable (snd (complete_todo (lit ''todo-1'')
     (snd (add_todo (lit ''Call mum'')
       (snd (add_todo (lit ''Walk dog'')
         (snd (add_todo (lit ''Buy milk'') init_state))))))))"
  by (intro reachable_complete reachable_add reachable.init) (simp_all add: lit_def)


section \<open>The tool handlers\<close>

text \<open>
  Claim C1. In every state of a process lifetime and for every non-empty title, the call
  of \<open>add_todo\<close> is accepted and appends exactly one item at the end of the collection:
  the length grows by one, the items that were there stay as they were and in their
  order, and the new item carries the title, \<open>completed = false\<close> and an identifier
  that no item of the collection had.
\<close>

theorem add_todo_appends_one_task:
  assumes "reachable s" and "title' \<noteq> []"
  shows "\<exists>r s' todo.
           call_tool (Add_todo title') s = Inr (r, s') \<and>
           todos s' = todos s @ [todo] \<and>
           length (todos s') = length (todos s) + 1 \<and>
           take (length (todos s)) (todos s') = todos s \<and>
           completed todo = False \<and>
           title todo = title' \<and>
           id_t todo = lit ''todo-'' @ Number_toString (nextId s) \<and>
           id_t todo \<notin> id_t ` set (todos s)"
proof -
  let ?todo = "\<lparr>id_t = lit ''todo-'' @ Number_toString (nextId s), title = title',
                completed = False\<rparr>"
  have "call_tool (Add_todo title') s = Inr (add_todo title' s)"
    using assms(2) by (cases title') (simp_all add: add_todo_inputSchema_def)
  moreover have "todos (snd (add_todo title' s)) = todos s @ [?todo]"
    by (simp add: add_todo_def Let_def)
  moreover have "id_t ?todo \<notin> id_t ` set (todos s)"
    using reachable_fresh [OF assms(1)] by simp
  ultimately show ?thesis
    by (intro exI [of _ "fst (add_todo title' s)"] exI [of _ "snd (add_todo title' s)"]
          exI [of _ ?todo]) simp
qed

theorem add_todo_appends_one_task_witness:
  "reachable
     \<lparr>todos = [\<lparr>id_t = lit ''todo-1'', title = lit ''Buy milk'', completed = True\<rparr>,
               \<lparr>id_t = lit ''todo-2'', title = lit ''Walk dog'', completed = False\<rparr>,
               \<lparr>id_t = lit ''todo-3'', title = lit ''Call mum'', completed = False\<rparr>],
      nextId = 4\<rparr> \<and>
   lit ''Pay rent'' \<noteq> [] \<and>
   (\<exists>r. call_tool (Add_todo (lit ''Pay rent''))
       \<lparr>todos = [\<lparr>id_t = lit ''todo-1'', title = lit ''Buy milk'', completed = True\<rparr>,
                 \<lparr>id_t = lit ''todo-2'', title = lit ''Walk dog'', completed = False\<rparr>,
                 \<lparr>id_t = lit ''todo-3'', title = lit ''Call mum'', completed = False\<rparr>],
        nextId = 4\<rparr>
     = Inr (r,
       \<lparr>todos = [\<lparr>id_t = lit ''todo-1'', title = lit ''Buy milk'', completed = True\<rparr>,
                 \<lparr>id_t = lit ''todo-2'', title = lit ''Walk dog'', completed = False\<rparr>,
                 \<lparr>id_t = lit ''todo-3'', title = lit ''Call mum'', completed = False\<rparr>,
                 \<lparr>id_t = lit ''todo-4'', title = lit ''Pay rent'', completed = False\<rparr>],
        nextId = 5\<rparr>)) \<and>
   lit ''todo-4'' \<notin> {lit ''todo-1'', lit ''todo-2'', lit ''todo-3''}"
proof -
  let ?s = "\<lparr>todos = [\<lparr>id_t = lit ''todo-1'', title = lit ''Buy milk'', completed = True\<rparr>,
               \<lparr>id_t = lit ''todo-2'', title = lit ''Walk dog'', completed = False\<rparr>,
               \<lparr>id_t = lit ''todo-3'', title = lit ''Call mum'', completed = False\<rparr>],
      nextId = 4\<rparr>"
  have r: "reachable ?s"
    using three_items_reachable unfolding three_items_state .
  have t: "lit ''Pay rent'' \<noteq> []" by (simp add: lit_def)
  have n: "lit ''todo-'' @ Number_toString 4 = lit ''todo-4''"
    by (simp add: lit_def Number_toString.simps)
  from add_todo_appends_one_task [OF r t] obtain res s' todo where
    c: "call_tool (Add_todo (lit ''Pay rent'')) ?s = Inr (res, s')" and
    a: "todos s' = todos ?s @ [todo]" and
    f: "completed todo = False" "title todo = lit ''Pay rent''"
       "id_t todo = lit ''todo-'' @ Number_toString (nextId ?s)" and
    fresh: "id_t todo \<notin> id_t ` set (todos ?s)"
    by blast
  from f n have todo: "todo = \<lparr>id_t = lit ''todo-4'', title = lit ''Pay rent'', completed = False\<rparr>"
    by (cases todo) simp
  from c have "s' = snd (add_todo (lit ''Pay rent'') ?s)"
    by (simp add: add_todo_inputSchema_def split: if_splits)
  then have "nextId s' = 5" by (simp add: add_todo_def Let_def)
  with a todo have s': "s' = \<lparr>todos = todos ?s @ [\<lparr>id_t = lit ''todo-4'', title = lit ''Pay rent'',
      completed = False\<rparr>], nextId = 5\<rparr>"
    by (cases s') simp
  from fresh f(3) n have "lit ''todo-4'' \<notin> {lit ''todo-1'', lit ''todo-2'', lit ''todo-3''}"
    by simp
  with r t c show ?thesis unfolding s' by auto
qed

text \<open>
  Claim C2. The counter starts at 1 and every \<open>add_todo\<close> uses its value for the new
  identifier \<open>todo-N\<close> and increments it. So in every state of a process lifetime the
  item at position \<open>i\<close> (in assignment order, from 0) has the identifier \<open>todo-(i+1)\<close>:
  the numbers \<open>N\<close> increase strictly along the collection and the identifiers are
  pairwise distinct.
\<close>

theorem identifiers_distinct_increasing:
  assumes "reachable s"
  shows "nextId init_state = 1 \<and>
         nextId s = length (todos s) + 1 \<and>
         nextId (snd (add_todo title' s)) = nextId s + 1 \<and>
         id_t (last (todos (snd (add_todo title' s)))) = lit ''todo-'' @ Number_toString (nextId s) \<and>
         (\<forall>i < length (todos s).
            id_t (todos s ! i) = lit ''todo-'' @ Number_toString (i + 1) \<and>
            decimal_value (drop 5 (id_t (todos s ! i))) = i + 1) \<and>
         (\<forall>i j. i < j \<and> j < length (todos s) \<longrightarrow>
            decimal_value (drop 5 (id_t (todos s ! i)))
              < decimal_value (drop 5 (id_t (todos s ! j)))) \<and>
         distinct (map id_t (todos s))"
proof -
  have ids: "id_t (todos s ! i) = lit ''todo-'' @ Number_toString (i + 1)"
    if "i < length (todos s)" for i
  proof -
    have "id_t (todos s ! i) = map id_t (todos s) ! i" using that by simp
    also have "\<dots> = map (\<lambda>k. lit ''todo-'' @ Number_toString k) [1..<nextId s] ! i"
      using reachable_ids [OF assms] by simp
    also have "\<dots> = lit ''todo-'' @ Number_toString (i + 1)"
      using that reachable_nextId [OF assms] by (simp del: upt_Suc)
    finally show ?thesis .
  qed
  have val: "decimal_value (drop 5 (id_t (todos s ! i))) = i + 1"
    if "i < length (todos s)" for i
    using ids [OF that] by (simp add: lit_def decimal_value_Number_toString)
  have "nextId init_state = 1" by (simp add: init_state_def)
  moreover have "nextId s = length (todos s) + 1"
    using reachable_nextId [OF assms] by simp
  moreover have "nextId (snd (add_todo title' s)) = nextId s + 1"
    by (simp add: add_todo_def Let_def)
  moreover have "id_t (last (todos (snd (add_todo title' s))))
      = lit ''todo-'' @ Number_toString (nextId s)"
    by (simp add: add_todo_def Let_def)
  moreover have "distinct (map id_t (todos s))"
    by (rule reachable_distinct [OF assms])
  ultimately show ?thesis using ids val by simp
qed

theorem identifiers_distinct_increasing_witness:
  "reachable (snd (add_todo (lit ''b'') (snd (add_todo (lit ''a'') init_state)))) \<and>
   map id_t (todos (snd (add_todo (lit ''b'') (snd (add_todo (lit ''a'') init_state)))))
     = [lit ''todo-1'', lit ''todo-2''] \<and>
   distinct (map id_t (todos (snd (add_todo (lit ''b'') (snd (add_todo (lit ''a'') init_state))))))"
proof -
  have r: "reachable (snd (add_todo (lit ''b'') (snd (add_todo (lit ''a'') init_state))))"
    by (intro reachable_add reachable.init) (simp_all add: lit_def)
  have "map id_t (todos (snd (add_todo (lit ''b'') (snd (add_todo (lit ''a'') init_state)))))
     = [lit ''todo-1'', lit ''todo-2'']"
    by (simp add: add_todo_def init_state_def Let_def lit_def Number_toString.simps)
  with identifiers_distinct_increasing [OF r] r show ?thesis by simp
qed

text \<open>
  Claim C3. For an id that no item of the collection has, \<open>complete_todo\<close> returns the
  state as it was, together with the text \<open>Todo <id> was not found.\<close> and the
  unchanged collection in the data block, the structured content and the metadata; the
  call is an ordinary result, not an error.
\<close>

theorem complete_todo_unknown_id:
  assumes "id' \<notin> id_t ` set (todos s)"
  shows "complete_todo id' s =
           (\<lparr>content =
               [Text (lit ''Todo '' @ id' @ lit '' was not found.''),
                Text (lit ''<widget-data>'' @ JSON_stringify (Tasks (todos s))
                      @ lit ''</widget-data>'')],
             structuredContent = Tasks (todos s),
             meta = [(lit ''openai/widgetData'', Tasks (todos s))]\<rparr>, s) \<and>
         (id' \<noteq> [] \<longrightarrow> call_tool (Complete_todo id') s = Inr (complete_todo id' s))"
proof -
  from assms have "find (\<lambda>task. id_t task = id') (todos s) = None"
    by (auto simp: find_None_iff)
  then show ?thesis
    by (cases id') (simp_all add: complete_todo_def complete_todo_inputSchema_def)
qed

theorem complete_todo_unknown_id_witness:
  "lit ''todo-4'' \<notin> id_t ` set (todos
     \<lparr>todos = [\<lparr>id_t = lit ''todo-1'', title = lit ''Buy milk'', completed = True\<rparr>,
               \<lparr>id_t = lit ''todo-2'', title = lit ''Walk dog'', completed = False\<rparr>,
               \<lparr>id_t = lit ''todo-3'', title = lit ''Call mum'', completed = False\<rparr>],
      nextId = 4\<rparr>) \<and>
   lit ''todo-4'' \<noteq> [] \<and>
   call_tool (Complete_todo (lit ''todo-4''))
     \<lparr>todos = [\<lparr>id_t = lit ''todo-1'', title = lit ''Buy milk'', completed = True\<rparr>,
               \<lparr>id_t = lit ''todo-2'', title = lit ''Walk dog'', completed = False\<rparr>,
               \<lparr>id_t = lit ''todo-3'', title = lit ''Call mum'', completed = False\<rparr>],
      nextId = 4\<rparr> =
     Inr (\<lparr>content =
            [Text (lit ''Todo todo-4 was not found.''),
             Text (lit ''<widget-data>{\"tasks\":[{\"id\":\"todo-1\",\"title\":\"Buy milk\",\"completed\":true},{\"id\":\"todo-2\",\"title\":\"Walk dog\",\"completed\":false},{\"id\":\"todo-3\",\"title\":\"Call mum\",\"completed\":false}]}</widget-data>'')],
          structuredContent = Tasks
            [\<lparr>id_t = lit ''todo-1'', title = lit ''Buy milk'', completed = True\<rparr>,
             \<lparr>id_t = lit ''todo-2'', title = lit ''Walk dog'', completed = False\<rparr>,
             \<lparr>id_t = lit ''todo-3'', title = lit ''Call mum'', completed = False\<rparr>],
          meta = [(lit ''openai/widgetData'', Tasks
            [\<lparr>id_t = lit ''todo-1'', title = lit ''Buy milk'', completed = True\<rparr>,
             \<lparr>id_t = lit ''todo-2'', title = lit ''Walk dog'', completed = False\<rparr>,
             \<lparr>id_t = lit ''todo-3'', title = lit ''Call mum'', completed = False\<rparr>])]\<rparr>,
       \<lparr>todos = [\<lparr>id_t = lit ''todo-1'', title = lit ''Buy milk'', completed = True\<rparr>,
                 \<lparr>id_t = lit ''todo-2'', title = lit ''Walk dog'', completed = False\<rparr>,
                 \<lparr>id_t = lit ''todo-3'', title = lit ''Call mum'', completed = False\<rparr>],
        nextId = 4\<rparr>)"
proof -
  let ?ts = "[\<lparr>id_t = lit ''todo-1'', title = lit ''Buy milk'', completed = True\<rparr>,
               \<lparr>id_t = lit ''todo-2'', title = lit ''Walk dog'', completed = False\<rparr>,
               \<lparr>id_t = lit ''todo-3'', title = lit ''Call mum'', completed = False\<rparr>]"
  let ?s = "\<lparr>todos = ?ts, nextId = 4\<rparr>"
  have a: "lit ''todo-4'' \<notin> id_t ` set (todos ?s)" by (simp add: lit_def)
  have b: "lit ''todo-4'' \<noteq> []" by (simp add: lit_def)
  have t: "todos ?s = ?ts" by simp
  have v: "JSON_stringify (Tasks ?ts) = lit ''{\"tasks\":[{\"id\":\"todo-1\",\"title\":\"Buy milk\",\"completed\":true},{\"id\":\"todo-2\",\"title\":\"Walk dog\",\"completed\":false},{\"id\":\"todo-3\",\"title\":\"Call mum\",\"completed\":false}]}''"
    by (simp add: JSON_stringify_def JSON_stringify_todo_def QuoteJSONString_def lit_def
          is_leading_surrogate_def is_trailing_surrogate_def quote_unit_def)
  note th = complete_todo_unknown_id [OF a]
  have c1: "complete_todo (lit ''todo-4'') ?s =
      (\<lparr>content =
          [Text (lit ''Todo '' @ lit ''todo-4'' @ lit '' was not found.''),
           Text (lit ''<widget-data>'' @ JSON_stringify (Tasks (todos ?s))
                 @ lit ''</widget-data>'')],
        structuredContent = Tasks (todos ?s),
        meta = [(lit ''openai/widgetData'', Tasks (todos ?s))]\<rparr>, ?s)"
    using th by (rule conjunct1)
  have c2: "call_tool (Complete_todo (lit ''todo-4'')) ?s
      = Inr (complete_todo (lit ''todo-4'') ?s)"
    using th b by (rule conjunct2 [THEN mp])
  show ?thesis
    unfolding c2 c1 t v using a b by (simp add: lit_def)
qed

text \<open>
  Claim C4. For an id that an item of the collection has, in a state of a process
  lifetime: exactly one position \<open>i\<close> holds that id, \<open>complete_todo\<close> stores the
  collection with the item at \<open>i\<close> updated to \<open>completed = true\<close> and every other
  position (and the counter) as before, and returns the confirmation with that item's
  title plus the updated collection in all three representations.
\<close>

theorem complete_todo_known_id:
  assumes "reachable s" and "id' \<in> id_t ` set (todos s)"
  shows "\<exists>i < length (todos s).
           id_t (todos s ! i) = id' \<and>
           (\<forall>j < length (todos s). j \<noteq> i \<longrightarrow> id_t (todos s ! j) \<noteq> id') \<and>
           complete_todo id' s =
             (let new = (todos s)[i := (todos s ! i)\<lparr>completed := True\<rparr>] in
              (\<lparr>content =
                  [Text (lit ''Completed \"'' @ title (todos s ! i) @ lit ''\".''),
                   Text (lit ''<widget-data>'' @ JSON_stringify (Tasks new)
                         @ lit ''</widget-data>'')],
                structuredContent = Tasks new,
                meta = [(lit ''openai/widgetData'', Tasks new)]\<rparr>,
               s\<lparr>todos := new\<rparr>))"
proof -
  from assms(2) obtain x where "x \<in> set (todos s)" "id_t x = id'" by blast
  then obtain i where i: "i < length (todos s)" "id_t (todos s ! i) = id'"
    unfolding in_set_conv_nth by blast
  have d: "distinct (map id_t (todos s))" by (rule reachable_distinct [OF assms(1)])
  have u: "\<forall>j < length (todos s). j \<noteq> i \<longrightarrow> id_t (todos s ! j) \<noteq> id'"
  proof (intro allI impI)
    fix j
    assume j: "j < length (todos s)" "j \<noteq> i"
    have "id_t (todos s ! j) \<noteq> id_t (todos s ! i)"
      using distinct_id_nth [OF d j(1) i(1)] j(2) by simp
    then show "id_t (todos s ! j) \<noteq> id'" using i(2) by simp
  qed
  let ?new = "(todos s)[i := (todos s ! i)\<lparr>completed := True\<rparr>]"
  have f: "find (\<lambda>task. id_t task = id') (todos s) = Some (todos s ! i)"
    using find_distinct [OF d i(1)] by (simp only: i(2))
  have m: "map (\<lambda>task. if id_t task = id' then task\<lparr>completed := True\<rparr> else task) (todos s)
      = ?new"
    using map_complete_distinct [OF d i(1)] by (simp only: i(2))
  have "complete_todo id' s =
          (let new = ?new in
           (\<lparr>content =
               [Text (lit ''Completed \"'' @ title (todos s ! i) @ lit ''\".''),
                Text (lit ''<widget-data>'' @ JSON_stringify (Tasks new)
                      @ lit ''</widget-data>'')],
             structuredContent = Tasks new,
             meta = [(lit ''openai/widgetData'', Tasks new)]\<rparr>,
            s\<lparr>todos := new\<rparr>))"
    unfolding complete_todo_def f m by (simp add: Let_def)
  with i u show ?thesis by (intro exI [of _ i] conjI)
qed

theorem complete_todo_known_id_witness:
  "reachable
     \<lparr>todos = [\<lparr>id_t = lit ''todo-1'', title = lit ''Buy milk'', completed = True\<rparr>,
               \<lparr>id_t = lit ''todo-2'', title = lit ''Walk dog'', completed = False\<rparr>,
               \<lparr>id_t = lit ''todo-3'', title = lit ''Call mum'', completed = False\<rparr>],
      nextId = 4\<rparr> \<and>
   lit ''todo-2'' \<in> id_t ` set (todos
     \<lparr>todos = [\<lparr>id_t = lit ''todo-1'', title = lit ''Buy milk'', completed = True\<rparr>,
               \<lparr>id_t = lit ''todo-2'', title = lit ''Walk dog'', completed = False\<rparr>,
               \<lparr>id_t = lit ''todo-3'', title = lit ''Call mum'', completed = False\<rparr>],
      nextId = 4\<rparr>) \<and>
   snd (complete_todo (lit ''todo-2'')
     \<lparr>todos = [\<lparr>id_t = lit ''todo-1'', title = lit ''Buy milk'', completed = True\<rparr>,
               \<lparr>id_t = lit ''todo-2'', title = lit ''Walk dog'', completed = False\<rparr>,
               \<lparr>id_t = lit ''todo-3'', title = lit ''Call mum'', completed = False\<rparr>],
      nextId = 4\<rparr>)
   = \<lparr>todos = [\<lparr>id_t = lit ''todo-1'', title = lit ''Buy milk'', completed = True\<rparr>,
               \<lparr>id_t = lit ''todo-2'', title = lit ''Walk dog'', completed = True\<rparr>,
               \<lparr>id_t = lit ''todo-3'', title = lit ''Call mum'', completed = False\<rparr>],
      nextId = 4\<rparr> \<and>
   content (fst (complete_todo (lit ''todo-2'')
     \<lparr>todos = [\<lparr>id_t = lit ''todo-1'', title = lit ''Buy milk'', completed = True\<rparr>,
               \<lparr>id_t = lit ''todo-2'', title = lit ''Walk dog'', completed = False\<rparr>,
               \<lparr>id_t = lit ''todo-3'', title = lit ''Call mum'', completed = False\<rparr>],
      nextId = 4\<rparr>)) ! 0
   = Text (lit ''Completed \"Walk dog\".'') \<and>
   structuredContent (fst (complete_todo (lit ''todo-2'')
     \<lparr>todos = [\<lparr>id_t = lit ''todo-1'', title = lit ''Buy milk'', completed = True\<rparr>,
               \<lparr>id_t = lit ''todo-2'', title = lit ''Walk dog'', completed = False\<rparr>,
               \<lparr>id_t = lit ''todo-3'', title = lit ''Call mum'', completed = False\<rparr>],
      nextId = 4\<rparr>))
   = Tasks [\<lparr>id_t = lit ''todo-1'', title = lit ''Buy milk'', completed = True\<rparr>,
            \<lparr>id_t = lit ''todo-2'', title = lit ''Walk dog'', completed = True\<rparr>,
            \<lparr>id_t = lit ''todo-3'', title = lit ''Call mum'', completed = False\<rparr>]"
proof -
  let ?ts = "[\<lparr>id_t = lit ''todo-1'', title = lit ''Buy milk'', completed = True\<rparr>,
               \<lparr>id_t = lit ''todo-2'', title = lit ''Walk dog'', completed = False\<rparr>,
               \<lparr>id_t = lit ''todo-3'', title = lit ''Call mum'', completed = False\<rparr>]"
  let ?s = "\<lparr>todos = ?ts, nextId = 4\<rparr>"
  have r: "reachable ?s"
    using three_items_reachable unfolding three_items_state .
  have m: "lit ''todo-2'' \<in> id_t ` set (todos ?s)" by simp
  from complete_todo_known_id [OF r m] obtain i where
    i: "i < length (todos ?s)" "id_t (todos ?s ! i) = lit ''todo-2''" and
    e: "complete_todo (lit ''todo-2'') ?s =
          (let new = (todos ?s)[i := (todos ?s ! i)\<lparr>completed := True\<rparr>] in
           (\<lparr>content =
               [Text (lit ''Completed \"'' @ title (todos ?s ! i) @ lit ''\".''),
                Text (lit ''<widget-data>'' @ JSON_stringify (Tasks new)
                      @ lit ''</widget-data>'')],
             structuredContent = Tasks new,
             meta = [(lit ''openai/widgetData'', Tasks new)]\<rparr>,
            ?s\<lparr>todos := new\<rparr>))"
    by blast
  from i(1) have "i = 0 \<or> i = 1 \<or> i = 2" by auto
  with i(2) have i1: "i = 1" by (auto simp: lit_def)
  show ?thesis
    unfolding e i1 using r m by (simp add: Let_def lit_def)
qed

text \<open>
  Claim C5. \<open>complete_todo\<close> is idempotent: a second call with the same id, right after
  the first, leaves the same state (and gives the same response) as the first call alone.
  This holds for every id, present or not.
\<close>

theorem complete_todo_idempotent:
  "snd (complete_todo id' (snd (complete_todo id' s))) = snd (complete_todo id' s) \<and>
   complete_todo id' (snd (complete_todo id' s)) = complete_todo id' s"
proof (cases "find (\<lambda>task. id_t task = id') (todos s)")
  case None
  then show ?thesis by (simp add: complete_todo_def)
next
  case (Some x)
  then show ?thesis
    by (simp add: complete_todo_def Let_def find_map_complete map_complete_twice del: map_map)
qed

text \<open>
  Claim C8. \<open>list_todos\<close> leaves the collection and the counter as they are: after any
  number of calls the state is the same, so every later tool call gives the result it
  would have given without them. Its first text block is \<open>You have N todos.\<close> with
  \<open>N\<close> the decimal numeral of the length of the collection.
\<close>

theorem list_todos_does_not_mutate:
  "snd (list_todos s) = s \<and>
   ((\<lambda>s. snd (list_todos s)) ^^ n) s = s \<and>
   call_tool c (((\<lambda>s. snd (list_todos s)) ^^ n) s) = call_tool c s \<and>
   content (fst (list_todos s)) ! 0
     = Text (lit ''You have '' @ Number_toString (length (todos s)) @ lit '' todos.'') \<and>
   decimal_value (Number_toString (length (todos s))) = length (todos s)"
  by (simp add: funpow_list_todos decimal_value_Number_toString) (simp add: list_todos_def)



text \<open>
  Claim C10, as stated, fails: the title \<open>a"b\<close> is accepted by the input schema, and
  the data block of the response does not contain it verbatim (it contains \<open>a\"b\<close>).
\<close>

theorem raw_title_escaped_in_widget_data:
  "add_todo_inputSchema (lit ''a\"b'') \<and>
   \<not> sublist (lit ''a\"b'')
       (text_b (content (fst (add_todo (lit ''a\"b'') init_state)) ! 1))"
  by (simp add: add_todo_inputSchema_def add_todo_def init_state_def Let_def lit_def
        JSON_stringify_def JSON_stringify_todo_def QuoteJSONString_def quote_unit_def
        is_leading_surrogate_def is_trailing_surrogate_def Number_toString.simps
        sublist_Cons_right)


text \<open>
  Claim C10, amended. For every title accepted by input validation, \<open>add_todo\<close> stores
  the title exactly as given and the confirmation text contains it verbatim. The data
  block contains the JSON string literal of the title, \<open>QuoteJSONString title\<close>; that
  literal is the title between two double quotes exactly when the title has no double
  quote, backslash, control character or unpaired surrogate, and then the data block
  contains the raw title too (so markup such as \<open><b>\<close> and the text
  \<open></widget-data>\<close> are not escaped).
\<close>

theorem add_todo_title_json_quoted:
  assumes "call_tool (Add_todo title') s = Inr (r, s')"
  shows "title' \<noteq> [] \<and>
         todos s' = todos s @ [last (todos s')] \<and>
         title (last (todos s')) = title' \<and>
         content r ! 0 = Text (lit ''Added \"'' @ title' @ lit ''\".'') \<and>
         sublist title' (text_b (content r ! 0)) \<and>
         content r ! 1 = Text (lit ''<widget-data>'' @ JSON_stringify (Tasks (todos s'))
                               @ lit ''</widget-data>'') \<and>
         sublist (QuoteJSONString title') (text_b (content r ! 1)) \<and>
         (QuoteJSONString title' = 0x22 # title' @ [0x22] \<longleftrightarrow> verbatim_units title') \<and>
         (verbatim_units title' \<longrightarrow> sublist title' (text_b (content r ! 1)))"
proof -
  let ?todo = "\<lparr>id_t = lit ''todo-'' @ Number_toString (nextId s), title = title',
                completed = False\<rparr>"
  from assms have ne: "title' \<noteq> []" and "(r, s') = add_todo title' s"
    by (auto simp: add_todo_inputSchema_def split: if_splits)
  then have r: "r = fst (add_todo title' s)" and s': "s' = snd (add_todo title' s)"
    by (metis fst_conv, metis snd_conv)
  have t: "todos s' = todos s @ [?todo]" by (simp add: s' add_todo_def Let_def)
  have c0: "content r ! 0 = Text (lit ''Added \"'' @ title' @ lit ''\".'')"
    by (simp add: r add_todo_def Let_def)
  have c1: "content r ! 1 = Text (lit ''<widget-data>'' @ JSON_stringify (Tasks (todos s'))
                               @ lit ''</widget-data>'')"
    by (simp add: r s' add_todo_def Let_def)
  have q: "sublist (QuoteJSONString title') (JSON_stringify (Tasks (todos s')))"
    unfolding t using sublist_title_JSON_stringify [of ?todo "todos s"] by simp
  then have q1: "sublist (QuoteJSONString title') (text_b (content r ! 1))"
  proof -
    have "sublist (JSON_stringify (Tasks (todos s'))) (text_b (content r ! 1))"
      unfolding c1 by simp
    with q show ?thesis using sublist_order.order.trans by blast
  qed
  have v: "sublist title' (text_b (content r ! 1))" if "verbatim_units title'"
  proof -
    have "sublist title' (QuoteJSONString title')"
      using that by (simp add: QuoteJSONString_def quote_units_verbatim sublist_Cons_right)
    with q1 show ?thesis using sublist_order.order.trans by blast
  qed
  show ?thesis
    using ne t c0 c1 q1 v by (simp add: QuoteJSONString_verbatim_iff)
qed

theorem add_todo_title_json_quoted_witness:
  "call_tool (Add_todo (lit ''<b>x</b></widget-data>'')) init_state
     = Inr (add_todo (lit ''<b>x</b></widget-data>'') init_state) \<and>
   verbatim_units (lit ''<b>x</b></widget-data>'') \<and>
   sublist (lit ''<b>x</b></widget-data>'')
     (text_b (content (fst (add_todo (lit ''<b>x</b></widget-data>'') init_state)) ! 1)) \<and>
   \<not> verbatim_units (lit ''a\"b'')"
proof -
  have a: "call_tool (Add_todo (lit ''<b>x</b></widget-data>'')) init_state
     = Inr (fst (add_todo (lit ''<b>x</b></widget-data>'') init_state),
            snd (add_todo (lit ''<b>x</b></widget-data>'') init_state))"
    by (simp add: add_todo_inputSchema_def lit_def)
  have b: "verbatim_units (lit ''<b>x</b></widget-data>'')"
    by (simp add: lit_def plain_unit_def is_leading_surrogate_def is_trailing_surrogate_def)
  have c: "\<not> verbatim_units (lit ''a\"b'')"
    by (simp add: lit_def plain_unit_def is_leading_surrogate_def is_trailing_surrogate_def)
  from add_todo_title_json_quoted [OF a] have
    "verbatim_units (lit ''<b>x</b></widget-data>'') \<longrightarrow>
     sublist (lit ''<b>x</b></widget-data>'')
       (text_b (content (fst (add_todo (lit ''<b>x</b></widget-data>'') init_state)) ! 1))"
    by blast
  with b have d: "sublist (lit ''<b>x</b></widget-data>'')
       (text_b (content (fst (add_todo (lit ''<b>x</b></widget-data>'') init_state)) ! 1))"
    by blast
  have e: "call_tool (Add_todo (lit ''<b>x</b></widget-data>'')) init_state
     = Inr (add_todo (lit ''<b>x</b></widget-data>'') init_state)"
    unfolding a by simp
  from e b d c show ?thesis by blast
qed

section \<open>The post-processor\<close>

text \<open>
  Claim C6, as stated, fails in its count of script blocks: a document that went through
  \<open>processWidgetHtml\<close> before contains \<open></body>\<close>, and its output holds the script
  block twice, at two different positions.
\<close>

theorem processWidgetHtml_two_script_blocks:
  "sublist (lit ''</body>'') (lit ''<p>'' @ dataInjectionScript @ lit ''</body>'') \<and>
   processWidgetHtml (lit ''<p>'' @ dataInjectionScript @ lit ''</body>'')
     = lit ''<p>'' @ dataInjectionScript @ dataInjectionScript @ lit ''</body>'' \<and>
   prefix dataInjectionScript
     (drop 3 (processWidgetHtml (lit ''<p>'' @ dataInjectionScript @ lit ''</body>''))) \<and>
   prefix dataInjectionScript
     (drop (3 + length dataInjectionScript)
        (processWidgetHtml (lit ''<p>'' @ dataInjectionScript @ lit ''</body>''))) \<and>
   3 \<noteq> 3 + length dataInjectionScript"
proof -
  have "\<not> sublist (lit ''</body>'') (lit ''<p>'')"
    by (simp add: sublist_lit sublist_Cons_right)
  then have "\<not> sublist (lit ''</body>'') ((lit ''<p>'' @ dataInjectionScript) @ lit ''</body'')"
    by (simp add: no_tag_before_script)
  from process_found [OF refl this, of "[]"]
  have e: "processWidgetHtml (lit ''<p>'' @ dataInjectionScript @ lit ''</body>'')
     = lit ''<p>'' @ dataInjectionScript @ dataInjectionScript @ lit ''</body>''"
    by simp
  have l: "length (lit ''<p>'') = 3" by (simp add: lit_def)
  have "sublist (lit ''</body>'') ((lit ''<p>'' @ dataInjectionScript) @ lit ''</body>'')"
    by (rule sublist_append_leftI)
  then show ?thesis
    unfolding e using script_not_Nil l by simp
qed

text \<open>
  Claim C6, amended. When the input contains the text \<open></body>\<close>, \<open>processWidgetHtml\<close>
  puts the script block immediately before its first occurrence: for the split
  \<open>html = pre @ </body> @ post\<close> at the first occurrence (which exists), the output is
  \<open>pre @ script @ </body> @ post\<close>. When the input does not contain it, the output is
  the input followed by the script block, so the input is a prefix of the output. In
  both cases exactly one block is inserted and nothing else changes: the output is longer
  than the input by exactly the length of the block.
\<close>

theorem processWidgetHtml_inserts_script:
  "(\<forall>pre post.
      html = pre @ lit ''</body>'' @ post \<and> \<not> sublist (lit ''</body>'') (pre @ lit ''</body'')
      \<longrightarrow> processWidgetHtml html = pre @ dataInjectionScript @ lit ''</body>'' @ post) \<and>
   (sublist (lit ''</body>'') html \<longrightarrow>
      (\<exists>pre post. html = pre @ lit ''</body>'' @ post
         \<and> \<not> sublist (lit ''</body>'') (pre @ lit ''</body''))) \<and>
   (\<not> sublist (lit ''</body>'') html \<longrightarrow>
      processWidgetHtml html = html @ dataInjectionScript
      \<and> prefix html (processWidgetHtml html)) \<and>
   length (processWidgetHtml html) = length html + length dataInjectionScript"
proof (intro conjI allI impI)
  fix pre post
  assume "html = pre @ lit ''</body>'' @ post
    \<and> \<not> sublist (lit ''</body>'') (pre @ lit ''</body'')"
  then show "processWidgetHtml html = pre @ dataInjectionScript @ lit ''</body>'' @ post"
    using process_found by blast
next
  assume "sublist (lit ''</body>'') html"
  from first_occurrence_exists [OF this tag_not_Nil]
  show "\<exists>pre post. html = pre @ lit ''</body>'' @ post
         \<and> \<not> sublist (lit ''</body>'') (pre @ lit ''</body'')"
    by (simp add: butlast_tag)
next
  assume a: "\<not> sublist (lit ''</body>'') html"
  then show "processWidgetHtml html = html @ dataInjectionScript"
    by (rule process_absent)
  then show "prefix html (processWidgetHtml html)" by simp
next
  show "length (processWidgetHtml html) = length html + length dataInjectionScript"
    by (rule length_process)
qed

theorem processWidgetHtml_inserts_script_witness:
  "lit ''<p></body>'' = lit ''<p>'' @ lit ''</body>'' @ [] \<and>
   \<not> sublist (lit ''</body>'') (lit ''<p>'' @ lit ''</body'') \<and>
   processWidgetHtml (lit ''<p></body>'') = lit ''<p>'' @ dataInjectionScript @ lit ''</body>'' \<and>
   \<not> sublist (lit ''</body>'') (lit ''<p>'') \<and>
   processWidgetHtml (lit ''<p>'') = lit ''<p>'' @ dataInjectionScript"
proof -
  have a: "lit ''<p></body>'' = lit ''<p>'' @ lit ''</body>'' @ []" by (simp add: lit_def)
  have b: "\<not> sublist (lit ''</body>'') (lit ''<p>'' @ lit ''</body'')"
    by (simp add: lit_append [symmetric] sublist_lit sublist_Cons_right)
  have c: "\<not> sublist (lit ''</body>'') (lit ''<p>'')"
    by (simp add: sublist_lit sublist_Cons_right)
  from processWidgetHtml_inserts_script [of "lit ''<p></body>''"] a b
  have "processWidgetHtml (lit ''<p></body>'')
      = lit ''<p>'' @ dataInjectionScript @ lit ''</body>'' @ []" by blast
  moreover from processWidgetHtml_inserts_script [of "lit ''<p>''"] c
  have "processWidgetHtml (lit ''<p>'') = lit ''<p>'' @ dataInjectionScript" by blast
  ultimately show ?thesis using a b c by simp
qed


text \<open>
  Claim C7, as stated, fails: applying \<open>processWidgetHtml\<close> to its own output does not
  give the same document again.
\<close>

theorem processWidgetHtml_not_idempotent:
  "processWidgetHtml (processWidgetHtml (lit ''<html><body></body></html>''))
     \<noteq> processWidgetHtml (lit ''<html><body></body></html>'')"
proof
  assume "processWidgetHtml (processWidgetHtml (lit ''<html><body></body></html>''))
     = processWidgetHtml (lit ''<html><body></body></html>'')"
  then have "length (processWidgetHtml (processWidgetHtml (lit ''<html><body></body></html>'')))
     = length (processWidgetHtml (lit ''<html><body></body></html>''))" by simp
  then show False using script_not_Nil by (simp add: length_process)
qed


text \<open>
  Claim C7, amended. \<open>processWidgetHtml\<close> is a function of its argument alone (the same
  input gives the same output), but it is not idempotent under self-application: a
  second application always injects a second script block next to the first, so the
  result is longer by the length of one block and never equal to the result of one
  application.
\<close>

theorem processWidgetHtml_injects_again:
  "(\<forall>pre post.
      html = pre @ lit ''</body>'' @ post \<and> \<not> sublist (lit ''</body>'') (pre @ lit ''</body'')
      \<longrightarrow> processWidgetHtml (processWidgetHtml html)
            = pre @ dataInjectionScript @ dataInjectionScript @ lit ''</body>'' @ post) \<and>
   (\<not> sublist (lit ''</body>'') html \<longrightarrow>
      processWidgetHtml (processWidgetHtml html)
        = html @ dataInjectionScript @ dataInjectionScript) \<and>
   length (processWidgetHtml (processWidgetHtml html))
     = length (processWidgetHtml html) + length dataInjectionScript \<and>
   processWidgetHtml (processWidgetHtml html) \<noteq> processWidgetHtml html"
proof (intro conjI allI impI)
  fix pre post
  assume "html = pre @ lit ''</body>'' @ post
    \<and> \<not> sublist (lit ''</body>'') (pre @ lit ''</body'')"
  then show "processWidgetHtml (processWidgetHtml html)
            = pre @ dataInjectionScript @ dataInjectionScript @ lit ''</body>'' @ post"
    using process_twice_found by blast
next
  assume "\<not> sublist (lit ''</body>'') html"
  then show "processWidgetHtml (processWidgetHtml html)
        = html @ dataInjectionScript @ dataInjectionScript"
    by (rule process_twice_absent)
next
  show l: "length (processWidgetHtml (processWidgetHtml html))
     = length (processWidgetHtml html) + length dataInjectionScript"
    by (rule length_process)
  show "processWidgetHtml (processWidgetHtml html) \<noteq> processWidgetHtml html"
  proof
    assume "processWidgetHtml (processWidgetHtml html) = processWidgetHtml html"
    with l show False using script_not_Nil by simp
  qed
qed

theorem processWidgetHtml_injects_again_witness:
  "lit ''<p></body>'' = lit ''<p>'' @ lit ''</body>'' @ [] \<and>
   \<not> sublist (lit ''</body>'') (lit ''<p>'' @ lit ''</body'') \<and>
   processWidgetHtml (processWidgetHtml (lit ''<p></body>''))
     = lit ''<p>'' @ dataInjectionScript @ dataInjectionScript @ lit ''</body>'' \<and>
   \<not> sublist (lit ''</body>'') (lit ''<p>'') \<and>
   processWidgetHtml (processWidgetHtml (lit ''<p>''))
     = lit ''<p>'' @ dataInjectionScript @ dataInjectionScript"
proof -
  have a: "lit ''<p></body>'' = lit ''<p>'' @ lit ''</body>'' @ []" by (simp add: lit_def)
  have b: "\<not> sublist (lit ''</body>'') (lit ''<p>'' @ lit ''</body'')"
    by (simp add: lit_append [symmetric] sublist_lit sublist_Cons_right)
  have c: "\<not> sublist (lit ''</body>'') (lit ''<p>'')"
    by (simp add: sublist_lit sublist_Cons_right)
  from processWidgetHtml_injects_again [of "lit ''<p></body>''"] a b
  have "processWidgetHtml (processWidgetHtml (lit ''<p></body>''))
      = lit ''<p>'' @ dataInjectionScript @ dataInjectionScript @ lit ''</body>'' @ []" by blast
  moreover from processWidgetHtml_injects_again [of "lit ''<p>''"] c
  have "processWidgetHtml (processWidgetHtml (lit ''<p>''))
      = lit ''<p>'' @ dataInjectionScript @ dataInjectionScript" by blast
  ultimately show ?thesis using a b c by simp
qed

end
